theory Spec2Isabelle
  imports Main "HOL-Library.Word"
begin

unbundle bit_operations_syntax

section \<open>Ring segment: poolDequeue (pool\_queue.go)\<close>

text \<open>
  The element type \<open>T\<close> of the generic pool is a type \<open>'a\<close> with a zero value;
  \<open>isNil\<close> (\<open>reflect.ValueOf(t).IsZero()\<close>) is the comparison with that zero.
  The queue writes a \<open>T\<close> through \<open>unsafe.Pointer\<close> into the storage of an
  \<open>atomic.Pointer[T]\<close>, so a slot holds a value of \<open>T\<close> and the slot that
  loads as \<open>nil\<close> is the slot holding the zero value.

  The operations are embedded for one thread at a time: a \<open>Load\<close> followed by a
  \<open>CompareAndSwap\<close> on the value just loaded succeeds at once, so each CAS loop runs
  its body exactly once.  Every run-time panic of the Go code is a value of \<open>panic\<close>;
  an operation returns its outcome together with the state it leaves behind.
\<close>

datatype panic = NilPointerDereference | IndexOutOfRange | PoolIsNil

type_synonym uint32 = "32 word"
type_synonym uint64 = "64 word"

record 'a poolDequeue =
  headTail :: uint64
  vals :: "'a list"

definition dequeueBits :: nat where
  "dequeueBits = 32"

definition dequeueLimit :: nat where
  "dequeueLimit = (2 ^ dequeueBits) div 4"

definition isNil :: "'a::zero \<Rightarrow> bool" where
  "isNil t = (t = 0)"

definition unpack :: "uint64 \<Rightarrow> uint32 \<times> uint32" where
  "unpack ptrs =
     (let mask = (2 ^ dequeueBits - 1 :: uint64)
      in (ucast (drop_bit dequeueBits ptrs AND mask), ucast (ptrs AND mask)))"

definition pack :: "uint32 \<Rightarrow> uint32 \<Rightarrow> uint64" where
  "pack head tail =
     (let mask = (2 ^ dequeueBits - 1 :: uint32)
      in push_bit dequeueBits (ucast head) OR ucast (tail AND mask))"

text \<open>\<open>uint32(len(d.vals))\<close> and \<open>uint32(len(d.vals)-1)\<close>: the conversion of a Go
  \<open>int\<close> to \<open>uint32\<close> keeps the low 32 bits, also of \<open>-1\<close>.\<close>

definition len32 :: "'a poolDequeue \<Rightarrow> uint32" where
  "len32 d = of_nat (length (vals d))"

definition lenm1_32 :: "'a poolDequeue \<Rightarrow> uint32" where
  "lenm1_32 d = word_of_int (int (length (vals d)) - 1)"

text \<open>\<open>&d.vals[i]\<close>: the bounds check of the slice index.  A slot pointer is the
  index of the slot; the \<open>nil\<close> slot pointer is \<open>None\<close>.\<close>

definition slot_at :: "'a poolDequeue \<Rightarrow> uint32 \<Rightarrow> panic + nat" where
  "slot_at d i = (if unat i < length (vals d) then Inr (unat i) else Inl IndexOutOfRange)"

text \<open>\<open>*(*T)(unsafe.Pointer(dequeueNil(nil)))\<close> reads through a nil pointer.\<close>

definition deref_dequeueNil :: "panic + 'a" where
  "deref_dequeueNil = Inl NilPointerDereference"

text \<open>\<open>slot.Store(nil)\<close> on a slot pointer: the method dereferences its receiver.\<close>

definition slot_Store_nil :: "nat option \<Rightarrow> 'a::zero poolDequeue \<Rightarrow> panic + 'a poolDequeue" where
  "slot_Store_nil slot d =
     (case slot of
        None \<Rightarrow> Inl NilPointerDereference
      | Some i \<Rightarrow> Inr (d\<lparr>vals := (vals d)[i := 0]\<rparr>))"

definition pushHead :: "'a::zero \<Rightarrow> 'a poolDequeue \<Rightarrow> (panic + bool) \<times> 'a poolDequeue" where
  "pushHead val d =
     (let ptrs = headTail d;
          (head, tail) = unpack ptrs
      in if (tail + len32 d) AND (2 ^ dequeueBits - 1) = head then (Inr False, d)
         else (case slot_at d (head AND lenm1_32 d) of
                 Inl e \<Rightarrow> (Inl e, d)
               | Inr slot \<Rightarrow>
                   (if vals d ! slot \<noteq> 0 then (Inr False, d)
                    else (case (if isNil val then deref_dequeueNil else Inr val) of
                            Inl e \<Rightarrow> (Inl e, d)
                          | Inr val' \<Rightarrow>
                              (Inr True,
                               d\<lparr>vals := (vals d)[slot := val'],
                                 headTail := headTail d + push_bit dequeueBits 1\<rparr>)))))"

definition popHead :: "'a::zero poolDequeue \<Rightarrow> (panic + 'a \<times> bool) \<times> 'a poolDequeue" where
  "popHead d =
     (let zero = (None :: 'a option);
          ptrs = headTail d;
          (head, tail) = unpack ptrs
      in if tail = head
         then (case zero of None \<Rightarrow> (Inl NilPointerDereference, d)
                          | Some z \<Rightarrow> (Inr (z, False), d))
         else let head = head - 1;
                  ptrs2 = pack head tail;
                  d = d\<lparr>headTail := ptrs2\<rparr>
              in (case slot_at d (head AND lenm1_32 d) of
                    Inl e \<Rightarrow> (Inl e, d)
                  | Inr slot \<Rightarrow>
                      (let val = vals d ! slot
                       in (case (if isNil val then deref_dequeueNil else Inr val) of
                             Inl e \<Rightarrow> (Inl e, d)
                           | Inr val' \<Rightarrow> (Inr (val', True), d\<lparr>vals := (vals d)[slot := 0]\<rparr>)))))"

definition popTail :: "'a::zero poolDequeue \<Rightarrow> (panic + 'a \<times> bool) \<times> 'a poolDequeue" where
  "popTail d =
     (let zero = (0 :: 'a);
          ptrs = headTail d;
          (head, tail) = unpack ptrs
      in if tail = head then (Inr (zero, False), d)
         else let ptrs2 = pack head (tail + 1);
                  d = d\<lparr>headTail := ptrs2\<rparr>
              in (case slot_at d (tail AND lenm1_32 d) of
                    Inl e \<Rightarrow> (Inl e, d)
                  | Inr slot \<Rightarrow>
                      (let val = vals d ! slot
                       in (case (if isNil val then deref_dequeueNil else Inr val) of
                             Inl e \<Rightarrow> (Inl e, d)
                           | Inr val' \<Rightarrow>
                               (let slot' = (None :: nat option)
                                in (case slot_Store_nil slot' d of
                                      Inl e \<Rightarrow> (Inl e, d)
                                    | Inr d' \<Rightarrow> (Inr (val', True), d')))))))"

text \<open>\<open>NewPoolDequeue(n)\<close> of the test export: \<open>n\<close> empty slots, both indices 500
  below the wrap-around.  \<open>newElt n\<close> is the segment a chain allocates: \<open>n\<close> empty
  slots and a zero \<open>headTail\<close>.\<close>

definition NewPoolDequeue :: "nat \<Rightarrow> 'a::zero poolDequeue" where
  "NewPoolDequeue n =
     \<lparr>headTail = pack (2 ^ dequeueBits - 500) (2 ^ dequeueBits - 500), vals = replicate n 0\<rparr>"

definition newElt :: "nat \<Rightarrow> 'a::zero poolDequeue" where
  "newElt n = \<lparr>headTail = 0, vals = replicate n 0\<rparr>"

section \<open>Segment chain: poolChain (pool\_queue.go)\<close>

text \<open>
  A chain is the doubly linked list of its segments.  It is the list of the segments
  reachable from \<open>c.head\<close> along \<open>prev\<close>, newest first: the first element is
  \<open>c.head\<close>, the last is \<open>c.tail\<close>, and the chain with both pointers \<open>nil\<close>
  is the empty list.  \<open>popTail\<close> moves \<open>c.tail\<close> to the next segment and clears
  that segment's \<open>prev\<close>, which removes the last element of the list.
\<close>

type_synonym 'a poolChain = "'a poolDequeue list"

definition growSize :: "nat \<Rightarrow> nat" where
  "growSize n = (let newSize = n * 2 in if newSize \<ge> dequeueLimit then dequeueLimit else newSize)"

definition chain_pushHead :: "'a::zero \<Rightarrow> 'a poolChain \<Rightarrow> (panic + unit) \<times> 'a poolChain" where
  "chain_pushHead val c =
     (let initSize = 8;
          (d, older) = (case c of [] \<Rightarrow> (newElt initSize, []) | d # older \<Rightarrow> (d, older))
      in case pushHead val d of
           (Inl e, d') \<Rightarrow> (Inl e, d' # older)
         | (Inr True, d') \<Rightarrow> (Inr (), d' # older)
         | (Inr False, d') \<Rightarrow>
             (let d2 = newElt (growSize (length (vals d')))
              in case pushHead val d2 of
                   (Inl e, d2') \<Rightarrow> (Inl e, d2' # d' # older)
                 | (Inr _, d2') \<Rightarrow> (Inr (), d2' # d' # older)))"

fun chain_popHead :: "'a::zero poolChain \<Rightarrow> (panic + 'a \<times> bool) \<times> 'a poolChain" where
  "chain_popHead [] = (Inr (0, False), [])"
| "chain_popHead (d # older) =
     (case popHead d of
        (Inl e, d') \<Rightarrow> (Inl e, d' # older)
      | (Inr (val, True), d') \<Rightarrow> (Inr (val, True), d' # older)
      | (Inr (val, False), d') \<Rightarrow>
          (case chain_popHead older of (r, older') \<Rightarrow> (r, d' # older')))"

text \<open>The loop of \<open>poolChain.popTail\<close>, on the segments from \<open>c.tail\<close> along
  \<open>next\<close> (oldest first).\<close>

fun popTail_from :: "'a::zero poolDequeue list \<Rightarrow> (panic + 'a \<times> bool) \<times> 'a poolDequeue list" where
  "popTail_from [] = (Inr (0, False), [])"
| "popTail_from (d # newer) =
     (case popTail d of
        (Inl e, d') \<Rightarrow> (Inl e, d' # newer)
      | (Inr (val, True), d') \<Rightarrow> (Inr (val, True), d' # newer)
      | (Inr (val, False), d') \<Rightarrow>
          (if newer = [] then (Inr (0, False), [d']) else popTail_from newer))"

definition chain_popTail :: "'a::zero poolChain \<Rightarrow> (panic + 'a \<times> bool) \<times> 'a poolChain" where
  "chain_popTail c = (case popTail_from (rev c) of (r, c') \<Rightarrow> (r, rev c'))"

section \<open>Pool, per-worker locals and the registry\<close>

text \<open>
  A generation is the array behind \<open>p.local\<close> or \<open>p.victim\<close>: \<open>None\<close> is the
  \<open>nil\<close> pointer.  The sizes are fields of their own, as in the source.  The store
  \<open>pools\<close> gives, for an address, the memory there read as a \<open>Pool\<close>;
  \<open>allPools\<close> and \<open>oldPools\<close> hold addresses, and \<open>poolCleanup\<close> works on
  whatever the store holds at them.  \<open>New\<close> is the optional factory.

  What the runtime supplies is a parameter \<open>env\<close>: the worker id
  \<open>runtime_procPin\<close> returns, \<open>GOMAXPROCS\<close>, \<open>race.Enabled\<close>, the value of
  \<open>fastrandn(4)\<close>, and \<open>receiverVar\<close>, the address at which the receiver variable
  \<open>p\<close> of the running \<open>pinSlow\<close> call is allocated.  \<open>pinSlow\<close> registers
  \<open>(*Pool[any])(unsafe.Pointer(&p))\<close>: that address, not the address of the pool.
\<close>

record 'a poolLocal =
  private' :: 'a
  shared :: "'a poolChain"

type_synonym 'a generation = "'a poolLocal list option"

record 'a Pool =
  New :: "(unit \<Rightarrow> 'a) option"
  local :: "'a generation"
  localSize :: nat
  victim :: "'a generation"
  victimSize :: nat

type_synonym addr = nat

record 'a world =
  pools :: "addr \<Rightarrow> 'a Pool"
  allPools :: "addr list"
  oldPools :: "addr list"

record env =
  procPin :: nat
  GOMAXPROCS :: nat
  raceEnabled :: bool
  fastrandn4 :: uint32
  receiverVar :: addr

definition zeroLocal :: "'a::zero poolLocal" where
  "zeroLocal = \<lparr>private' = 0, shared = []\<rparr>"

definition zeroPool :: "'a::zero Pool" where
  "zeroPool = \<lparr>New = None, local = None, localSize = 0, victim = None, victimSize = 0\<rparr>"

definition upd_pool :: "addr \<Rightarrow> ('a Pool \<Rightarrow> 'a Pool) \<Rightarrow> 'a world \<Rightarrow> 'a world" where
  "upd_pool a f w = w\<lparr>pools := (pools w)(a := f (pools w a))\<rparr>"

text \<open>\<open>indexLocal(l, i)\<close> is pointer arithmetic without a check; the access through
  the pointer faults on a \<open>nil\<close> base and outside the array.\<close>

definition indexLocal :: "'a generation \<Rightarrow> nat \<Rightarrow> panic + 'a poolLocal" where
  "indexLocal l i =
     (case l of
        None \<Rightarrow> Inl NilPointerDereference
      | Some ls \<Rightarrow> if i < length ls then Inr (ls ! i) else Inl IndexOutOfRange)"

definition storeLocal :: "'a generation \<Rightarrow> nat \<Rightarrow> 'a poolLocal \<Rightarrow> 'a generation" where
  "storeLocal l i v = map_option (\<lambda>ls. ls[i := v]) l"

definition pinSlow :: "env \<Rightarrow> addr \<Rightarrow> 'a::zero world \<Rightarrow> (panic + nat) \<times> 'a world" where
  "pinSlow env a w =
     (let pid = procPin env;
          p = pools w a;
          s = localSize p
      in if pid < s then (Inr pid, w)
         else let w1 = (if local p = None then w\<lparr>allPools := allPools w @ [receiverVar env]\<rparr> else w);
                  size = GOMAXPROCS env;
                  locals = replicate size zeroLocal;
                  w2 = upd_pool a (\<lambda>p. p\<lparr>local := Some locals, localSize := size\<rparr>) w1
              in if pid < size then (Inr pid, w2) else (Inl IndexOutOfRange, w2))"

definition pin :: "env \<Rightarrow> addr option \<Rightarrow> 'a::zero world \<Rightarrow> (panic + addr \<times> nat) \<times> 'a world" where
  "pin env ptr w =
     (case ptr of
        None \<Rightarrow> (Inl PoolIsNil, w)
      | Some a \<Rightarrow>
          let pid = procPin env;
              s = localSize (pools w a)
          in (if pid < s then (Inr (a, pid), w)
              else (case pinSlow env a w of
                      (Inl e, w') \<Rightarrow> (Inl e, w')
                    | (Inr pid', w') \<Rightarrow> (Inr (a, pid'), w'))))"

definition Put :: "env \<Rightarrow> addr option \<Rightarrow> 'a::zero \<Rightarrow> 'a world \<Rightarrow> (panic + unit) \<times> 'a world" where
  "Put env ptr x w =
     (if isNil x then (Inr (), w)
      else if raceEnabled env \<and> fastrandn4 env = 0 then (Inr (), w)
      else (case pin env ptr w of
              (Inl e, w1) \<Rightarrow> (Inl e, w1)
            | (Inr (a, pid), w1) \<Rightarrow>
                (case indexLocal (local (pools w1 a)) pid of
                   Inl e \<Rightarrow> (Inl e, w1)
                 | Inr l \<Rightarrow>
                     (if isNil x
                      then (Inr (), upd_pool a (\<lambda>p. p\<lparr>local := storeLocal (local p) pid (l\<lparr>private' := x\<rparr>)\<rparr>) w1)
                      else (case chain_pushHead x (shared l) of
                              (r, c') \<Rightarrow>
                                (r, upd_pool a (\<lambda>p. p\<lparr>local := storeLocal (local p) pid (l\<lparr>shared := c'\<rparr>)\<rparr>) w1))))))"

text \<open>The two scans of \<open>getSlow\<close> over chain tails.  \<open>stop x\<close> is the test that ends
  the scan with \<open>x\<close>; \<open>None\<close> is the scan that reached its end.\<close>

fun scanTails :: "('a \<Rightarrow> bool) \<Rightarrow> nat list \<Rightarrow> 'a::zero generation \<Rightarrow> (panic + 'a option) \<times> 'a generation" where
  "scanTails stop [] g = (Inr None, g)"
| "scanTails stop (j # js) g =
     (case indexLocal g j of
        Inl e \<Rightarrow> (Inl e, g)
      | Inr l \<Rightarrow>
          (case chain_popTail (shared l) of
             (Inl e, c') \<Rightarrow> (Inl e, storeLocal g j (l\<lparr>shared := c'\<rparr>))
           | (Inr (x, ok), c') \<Rightarrow>
               (let g' = storeLocal g j (l\<lparr>shared := c'\<rparr>)
                in if stop x then (Inr (Some x), g') else scanTails stop js g')))"

text \<open>\<open>&x != nil\<close>: the address of a local variable is never \<open>nil\<close>.\<close>

definition addr_of_ne_nil :: "'a \<Rightarrow> bool" where
  "addr_of_ne_nil x = True"

text \<open>\<open>getSlow\<close> after the scan of the current generation: the part on the
  victim generation.\<close>

definition getSlow_victim :: "addr \<Rightarrow> nat \<Rightarrow> 'a::zero world \<Rightarrow> (panic + 'a) \<times> 'a world" where
  "getSlow_victim a pid w1 =
     (let size = victimSize (pools w1 a)
      in if pid \<ge> size then (Inr 0, w1)
         else (let locals = victim (pools w1 a)
               in (case indexLocal locals pid of
                     Inl e \<Rightarrow> (Inl e, w1)
                   | Inr l \<Rightarrow>
                       (if \<not> isNil (private' l)
                        then (Inr (private' l),
                              upd_pool a (\<lambda>p. p\<lparr>victim := storeLocal locals pid (l\<lparr>private' := 0\<rparr>)\<rparr>) w1)
                        else (case scanTails addr_of_ne_nil (map (\<lambda>i. (pid + i) mod size) [0..<size]) locals of
                                (Inl e, locals') \<Rightarrow> (Inl e, upd_pool a (\<lambda>p. p\<lparr>victim := locals'\<rparr>) w1)
                              | (Inr (Some x), locals') \<Rightarrow> (Inr x, upd_pool a (\<lambda>p. p\<lparr>victim := locals'\<rparr>) w1)
                              | (Inr None, locals') \<Rightarrow>
                                  (Inr 0, upd_pool a (\<lambda>p. p\<lparr>victim := locals', victimSize := 0\<rparr>) w1))))))"

definition getSlow :: "addr \<Rightarrow> nat \<Rightarrow> 'a::zero world \<Rightarrow> (panic + 'a) \<times> 'a world" where
  "getSlow a pid w =
     (let size = localSize (pools w a);
          locals = local (pools w a)
      in (case scanTails (\<lambda>x. \<not> isNil x) (map (\<lambda>i. (pid + i + 1) mod size) [0..<size]) locals of
            (Inl e, locals') \<Rightarrow> (Inl e, upd_pool a (\<lambda>p. p\<lparr>local := locals'\<rparr>) w)
          | (Inr (Some x), locals') \<Rightarrow> (Inr x, upd_pool a (\<lambda>p. p\<lparr>local := locals'\<rparr>) w)
          | (Inr None, locals') \<Rightarrow> getSlow_victim a pid (upd_pool a (\<lambda>p. p\<lparr>local := locals'\<rparr>) w)))"

definition callNew :: "'a::zero Pool \<Rightarrow> 'a \<Rightarrow> 'a" where
  "callNew p x = (case New p of Some f \<Rightarrow> if isNil x then f () else x | None \<Rightarrow> x)"

definition Get :: "env \<Rightarrow> addr option \<Rightarrow> 'a::zero world \<Rightarrow> (panic + 'a) \<times> 'a world" where
  "Get env ptr w =
     (case pin env ptr w of
        (Inl e, w1) \<Rightarrow> (Inl e, w1)
      | (Inr (a, pid), w1) \<Rightarrow>
          (case indexLocal (local (pools w1 a)) pid of
             Inl e \<Rightarrow> (Inl e, w1)
           | Inr l \<Rightarrow>
               (let x = private' l;
                    l = l\<lparr>private' := 0\<rparr>;
                    w2 = upd_pool a (\<lambda>p. p\<lparr>local := storeLocal (local p) pid l\<rparr>) w1
                in if isNil x
                   then (case chain_popHead (shared l) of
                           (Inl e, c') \<Rightarrow>
                             (Inl e, upd_pool a (\<lambda>p. p\<lparr>local := storeLocal (local p) pid (l\<lparr>shared := c'\<rparr>)\<rparr>) w2)
                         | (Inr (x, ok), c') \<Rightarrow>
                             (let w3 = upd_pool a (\<lambda>p. p\<lparr>local := storeLocal (local p) pid (l\<lparr>shared := c'\<rparr>)\<rparr>) w2
                              in if isNil x
                                 then (case getSlow a pid w3 of
                                         (Inl e, w4) \<Rightarrow> (Inl e, w4)
                                       | (Inr x, w4) \<Rightarrow> (Inr (callNew (pools w4 a) x), w4))
                                 else (Inr (callNew (pools w3 a) x), w3)))
                   else (Inr (callNew (pools w2 a) x), w2))))"

text \<open>\<open>poolCleanup\<close>: the two loops over the registry, then the exchange of the
  two registry variables.\<close>

definition dropVictim :: "'a Pool \<Rightarrow> 'a Pool" where
  "dropVictim p = p\<lparr>victim := None, victimSize := 0\<rparr>"

definition moveToVictim :: "'a Pool \<Rightarrow> 'a Pool" where
  "moveToVictim p = p\<lparr>victim := local p, victimSize := localSize p, local := None, localSize := 0\<rparr>"

definition dropVictims :: "'a world \<Rightarrow> 'a world" where
  "dropVictims w = fold (\<lambda>a. upd_pool a dropVictim) (oldPools w) w"

definition moveAll :: "'a world \<Rightarrow> 'a world" where
  "moveAll w = fold (\<lambda>a. upd_pool a moveToVictim) (allPools w) w"

definition poolCleanup :: "'a world \<Rightarrow> 'a world" where
  "poolCleanup w = (let w2 = moveAll (dropVictims w) in w2\<lparr>oldPools := allPools w2, allPools := []\<rparr>)"

section \<open>Properties stated about the code\<close>

text \<open>The index invariant of a ring segment: the distance from tail to head, computed
  modulo \<open>2^32\<close>, is at most the number of slots.\<close>

definition dq_inv :: "'a poolDequeue \<Rightarrow> bool" where
  "dq_inv d = (case unpack (headTail d) of (head, tail) \<Rightarrow> unat (head - tail) \<le> length (vals d))"

text \<open>A run of \<open>pushHead\<close> calls on one segment, with the outcome of each call.\<close>

fun pushHeads :: "'a::zero list \<Rightarrow> 'a poolDequeue \<Rightarrow> (panic + bool) list \<times> 'a poolDequeue" where
  "pushHeads [] d = ([], d)"
| "pushHeads (v # vs) d =
     (case pushHead v d of (r, d') \<Rightarrow> (case pushHeads vs d' of (rs, d'') \<Rightarrow> (r # rs, d'')))"

text \<open>The capacities of a chain's segments from the oldest to the newest, a run of
  \<open>poolChain.pushHead\<close> calls, and the growth events of such a run: the calls in
  which the head segment refuses the value, so that a new segment is allocated.\<close>

definition caps :: "'a poolChain \<Rightarrow> nat list" where
  "caps c = map (\<lambda>d. length (vals d)) (rev c)"

fun chain_pushHeads :: "'a::zero list \<Rightarrow> 'a poolChain \<Rightarrow> (panic + unit) list \<times> 'a poolChain" where
  "chain_pushHeads [] c = ([], c)"
| "chain_pushHeads (v # vs) c =
     (case chain_pushHead v c of (r, c') \<Rightarrow> (case chain_pushHeads vs c' of (rs, c'') \<Rightarrow> (r # rs, c'')))"

definition grows :: "'a::zero \<Rightarrow> 'a poolChain \<Rightarrow> bool" where
  "grows v c = (case c of [] \<Rightarrow> False | d # older \<Rightarrow> fst (pushHead v d) = Inr False)"

fun growth_events :: "'a::zero list \<Rightarrow> 'a poolChain \<Rightarrow> nat" where
  "growth_events [] c = 0"
| "growth_events (v # vs) c =
     (if grows v c then 1 else 0) + growth_events vs (snd (chain_pushHead v c))"

text \<open>A segment that was filled from index \<open>h0\<close> on by \<open>j\<close> pushes and no pop: the
  head is \<open>j\<close> ahead of the tail \<open>h0\<close>, and the slots the next pushes will use are
  empty.\<close>

definition filled :: "32 word \<Rightarrow> nat \<Rightarrow> 'a::zero poolDequeue \<Rightarrow> bool" where
  "filled h0 j d \<longleftrightarrow>
     unpack (headTail d) = (h0 + of_nat j, h0) \<and>
     (\<forall>i. j \<le> i \<and> i < length (vals d) \<longrightarrow> vals d ! ((unat h0 + i) mod length (vals d)) = 0)"

text \<open>The setting of the single-worker scenarios: worker 0 of one, no race detector,
  the pool at address 0 and the receiver variable of \<open>pinSlow\<close> at address 1, and a
  store of pools that were never used, with a factory or without.\<close>

definition worker0 :: env where
  "worker0 = \<lparr>procPin = 0, GOMAXPROCS = 1, raceEnabled = False, fastrandn4 = 0,
               receiverVar = 1\<rparr>"

definition freshWorld :: "(unit \<Rightarrow> 'a) option \<Rightarrow> 'a::zero world" where
  "freshWorld new = \<lparr>pools = (\<lambda>a. zeroPool\<lparr>New := new\<rparr>), allPools = [], oldPools = []\<rparr>"

text \<open>The capacity of the \<open>i\<close>-th segment of a chain that only grew: 8 doubled
  \<open>i\<close> times, but at most \<open>dequeueLimit\<close>.\<close>

definition capOf :: "nat \<Rightarrow> nat" where
  "capOf i = min (8 * 2 ^ i) dequeueLimit"

text \<open>The round trip of one worker: three values submitted to a pool that was never
  used and whose factory returns 0, then four retrievals, each on the state the
  previous call left.\<close>

definition afterPuts :: "int world" where
  "afterPuts =
     snd (Put worker0 (Some 0) 3
       (snd (Put worker0 (Some 0) 2
         (snd (Put worker0 (Some 0) 1 (freshWorld (Some (\<lambda>u. 0))))))))"

definition get1 :: "(panic + int) \<times> int world" where
  "get1 = Get worker0 (Some 0) afterPuts"

definition get2 :: "(panic + int) \<times> int world" where
  "get2 = Get worker0 (Some 0) (snd get1)"

definition get3 :: "(panic + int) \<times> int world" where
  "get3 = Get worker0 (Some 0) (snd get2)"

definition get4 :: "(panic + int) \<times> int world" where
  "get4 = Get worker0 (Some 0) (snd get3)"

text \<open>A pool whose current and victim generation each have one worker slot with an
  empty private slot and an empty chain.\<close>

definition victimWorld :: "int world" where
  "victimWorld =
     \<lparr>pools = (\<lambda>a. \<lparr>New = None, local = Some [zeroLocal], localSize = 1,
                      victim = Some [zeroLocal], victimSize = 1\<rparr>),
      allPools = [0], oldPools = [0]\<rparr>"




subsection \<open>The packed index word\<close>

lemma mask32_64: "(2 ^ 32 - 1 :: 64 word) = mask 32"
  by (simp add: mask_eq_exp_minus_1)

lemma mask32_32: "(2 ^ 32 - 1 :: 32 word) = mask 32"
  by (simp add: mask_eq_exp_minus_1)

lemma unpack_pack_eq: "unpack (pack h t) = (h, t)"
  unfolding unpack_def pack_def dequeueBits_def Let_def mask32_64 mask32_32
  apply simp
  apply (rule conjI)
   apply (rule bit_word_eqI)
   apply (auto simp add: bit_simps)[1]
  apply (rule bit_word_eqI)
  apply (auto simp add: bit_simps)[1]
  done

lemma pack_unpack: "unpack x = (h, t) \<Longrightarrow> pack h t = x"
  unfolding unpack_def pack_def dequeueBits_def Let_def mask32_64 mask32_32
  apply clarsimp
  apply (rule bit_word_eqI)
  apply (auto simp add: bit_simps)
  done

text \<open>C10: unpacking the 64-bit word packed from two 32-bit indices gives the two
  indices back, for every pair of indices.\<close>

theorem unpack_pack_roundtrip: "unpack (pack head tail) = (head, tail)"
  by (rule unpack_pack_eq)

text \<open>\<open>headTail.Add(1 << dequeueBits)\<close> adds one to the head half, also when the head
  wraps around, and leaves the tail half alone.\<close>

lemma int_low:
  "(x + 4294967296) mod 18446744073709551616 mod 4294967296
     = x mod 18446744073709551616 mod (4294967296::int)"
proof -
  have d: "(4294967296::int) dvd 18446744073709551616" by simp
  have "(x + 4294967296) mod 18446744073709551616 mod 4294967296
          = (x + 4294967296) mod (4294967296::int)"
    using d by (rule mod_mod_cancel)
  also have "\<dots> = x mod 4294967296" by simp
  also have "\<dots> = x mod 18446744073709551616 mod 4294967296"
    using d by (rule mod_mod_cancel [symmetric])
  finally show ?thesis .
qed

lemma int_high:
  "(x + 4294967296) div 4294967296 mod 4294967296
     = (x div 4294967296 mod 4294967296 + 1) mod (4294967296::int)"
proof -
  have "(x + 4294967296) div 4294967296 = x div (4294967296::int) + 1" by simp
  then show ?thesis by (simp add: mod_add_left_eq)
qed

lemma ucast_add_high: "(ucast (x + 4294967296 :: 64 word) :: 32 word) = ucast x"
  apply transfer
  apply (simp add: take_bit_eq_mod int_low)
  done

lemma ucast_drop_add_high:
  "(ucast (drop_bit 32 (x + 4294967296 :: 64 word)) :: 32 word) = ucast (drop_bit 32 x) + 1"
  apply transfer
  apply (simp add: drop_bit_take_bit)
  apply (simp add: drop_bit_eq_div take_bit_eq_mod int_high)
  done

lemma unpack_simp: "unpack x = (ucast (drop_bit 32 x), ucast x)"
  unfolding unpack_def dequeueBits_def Let_def mask32_64
  apply simp
  apply (rule conjI; rule bit_word_eqI; auto simp add: bit_simps)
  done

lemma unpack_add: "unpack x = (h, t) \<Longrightarrow> unpack (x + push_bit dequeueBits 1) = (h + 1, t)"
  by (auto simp add: unpack_simp dequeueBits_def ucast_add_high ucast_drop_add_high)

lemma headTail_add: "unpack x = (h, t) \<Longrightarrow> x + push_bit dequeueBits 1 = pack (h + 1) t"
  by (rule pack_unpack [symmetric]) (rule unpack_add)

lemma and_mask32: "(x :: 32 word) AND (2 ^ dequeueBits - 1) = x"
  unfolding dequeueBits_def mask32_32 by (rule bit_word_eqI) (auto simp add: bit_simps)

subsection \<open>The three ring operations, by cases on the two indices\<close>

lemma pushHead_eq:
  assumes "unpack (headTail d) = (h, t)"
  shows "pushHead v d =
     (if t + len32 d = h then (Inr False, d)
      else if \<not> unat (h AND lenm1_32 d) < length (vals d) then (Inl IndexOutOfRange, d)
      else if vals d ! unat (h AND lenm1_32 d) \<noteq> 0 then (Inr False, d)
      else if v = 0 then (Inl NilPointerDereference, d)
      else (Inr True, d\<lparr>vals := (vals d)[unat (h AND lenm1_32 d) := v], headTail := pack (h + 1) t\<rparr>))"
  using assms headTail_add [OF assms]
  by (simp add: pushHead_def Let_def and_mask32 slot_at_def isNil_def deref_dequeueNil_def)

lemma popHead_eq:
  assumes "unpack (headTail d) = (h, t)"
  shows "popHead d =
     (if t = h then (Inl NilPointerDereference, d)
      else if \<not> unat ((h - 1) AND lenm1_32 d) < length (vals d)
           then (Inl IndexOutOfRange, d\<lparr>headTail := pack (h - 1) t\<rparr>)
      else if vals d ! unat ((h - 1) AND lenm1_32 d) = 0
           then (Inl NilPointerDereference, d\<lparr>headTail := pack (h - 1) t\<rparr>)
      else (Inr (vals d ! unat ((h - 1) AND lenm1_32 d), True),
            d\<lparr>headTail := pack (h - 1) t, vals := (vals d)[unat ((h - 1) AND lenm1_32 d) := 0]\<rparr>))"
  using assms
  by (simp add: popHead_def Let_def slot_at_def isNil_def deref_dequeueNil_def lenm1_32_def)

lemma popTail_eq:
  assumes "unpack (headTail d) = (h, t)"
  shows "popTail d =
     (if t = h then (Inr (0, False), d)
      else if \<not> unat (t AND lenm1_32 d) < length (vals d)
           then (Inl IndexOutOfRange, d\<lparr>headTail := pack h (t + 1)\<rparr>)
      else (Inl NilPointerDereference, d\<lparr>headTail := pack h (t + 1)\<rparr>))"
  using assms
  by (simp add: popTail_def Let_def slot_at_def isNil_def deref_dequeueNil_def lenm1_32_def
      slot_Store_nil_def)

subsection \<open>The index invariant\<close>

lemma inv_push_step:
  fixes h t :: "32 word"
  assumes "unat (h - t) \<le> n" "t + of_nat n \<noteq> h"
  shows "unat (h + 1 - t) \<le> n"
proof -
  define w where "w = h - t"
  have e: "h + 1 - t = w + 1" by (simp add: w_def)
  have ne: "w \<noteq> of_nat n" using assms(2) by (auto simp add: w_def diff_eq_eq add.commute)
  have le: "unat (w + 1) \<le> unat w + 1"
    by (simp add: unat_word_ariths)
  show ?thesis
  proof (cases "unat w = n")
    case True
    then have "of_nat n = w" by auto
    with ne show ?thesis by simp
  next
    case False
    with assms(1) have "unat w < n" by (simp add: w_def)
    with le show ?thesis unfolding e by linarith
  qed
qed

lemma inv_pop_step:
  fixes h t :: "32 word"
  assumes "unat (h - t) \<le> n" "t \<noteq> h"
  shows "unat (h - 1 - t) \<le> n" "unat (h - (t + 1)) \<le> n"
proof -
  define w where "w = h - t"
  have ne: "w \<noteq> 0" using assms(2) by (auto simp add: w_def)
  have "unat (w - 1) = unat w - 1" using ne by (rule unat_minus_one)
  then have le: "unat (w - 1) \<le> n" using assms(1) by (simp add: w_def)
  have e1: "h - 1 - t = w - 1" and e2: "h - (t + 1) = w - 1" unfolding w_def by simp_all
  show "unat (h - 1 - t) \<le> n" unfolding e1 by (rule le)
  show "unat (h - (t + 1)) \<le> n" unfolding e2 by (rule le)
qed

lemma pushHead_inv: "dq_inv d \<Longrightarrow> dq_inv (snd (pushHead v d))"
proof -
  assume inv: "dq_inv d"
  obtain h t where u: "unpack (headTail d) = (h, t)" by (cases "unpack (headTail d)")
  from inv u have le: "unat (h - t) \<le> length (vals d)" by (simp add: dq_inv_def)
  have "t + len32 d \<noteq> h \<Longrightarrow> unat (h + 1 - t) \<le> length (vals d)"
    using le unfolding len32_def by (rule inv_push_step)
  then show ?thesis
    using inv le by (simp add: pushHead_eq [OF u] dq_inv_def u unpack_pack_eq)
qed

lemma popHead_inv: "dq_inv d \<Longrightarrow> dq_inv (snd (popHead d))"
proof -
  assume inv: "dq_inv d"
  obtain h t where u: "unpack (headTail d) = (h, t)" by (cases "unpack (headTail d)")
  from inv u have le: "unat (h - t) \<le> length (vals d)" by (simp add: dq_inv_def)
  then show ?thesis
    using inv by (simp add: popHead_eq [OF u] dq_inv_def u unpack_pack_eq inv_pop_step)
qed

lemma popTail_inv: "dq_inv d \<Longrightarrow> dq_inv (snd (popTail d))"
proof -
  assume inv: "dq_inv d"
  obtain h t where u: "unpack (headTail d) = (h, t)" by (cases "unpack (headTail d)")
  from inv u have le: "unat (h - t) \<le> length (vals d)" by (simp add: dq_inv_def)
  then show ?thesis
    using inv by (simp add: popTail_eq [OF u] dq_inv_def u unpack_pack_eq inv_pop_step)
qed

lemma unpack_zero: "unpack 0 = (0, 0)"
  by (simp add: unpack_simp)

lemma fresh_inv: "dq_inv (NewPoolDequeue n)" "dq_inv (newElt n)"
  by (simp_all add: dq_inv_def NewPoolDequeue_def newElt_def unpack_pack_eq unpack_zero)

text \<open>C7: for a ring segment with \<open>N\<close> slots, the head index minus the tail index,
  computed modulo \<open>2^32\<close>, is between 0 and \<open>N\<close> in a freshly constructed segment
  (by either constructor), and \<open>pushHead\<close>, \<open>popHead\<close> and \<open>popTail\<close> each leave a
  segment in which this holds when they start from one, whatever their outcome.\<close>

theorem ring_index_invariant:
  "dq_inv (NewPoolDequeue n) \<and> dq_inv (newElt n) \<and>
   (dq_inv d \<longrightarrow> dq_inv (snd (pushHead v d)) \<and> dq_inv (snd (popHead d)) \<and> dq_inv (snd (popTail d)))"
  by (simp add: fresh_inv pushHead_inv popHead_inv popTail_inv)

theorem ring_index_invariant_witness:
  "dq_inv \<lparr>headTail = pack 3 1, vals = [0, 5, 6, 0::int]\<rparr> \<and>
   dq_inv (snd (pushHead 7 \<lparr>headTail = pack 3 1, vals = [0, 5, 6, 0::int]\<rparr>)) \<and>
   dq_inv (snd (popHead \<lparr>headTail = pack 3 1, vals = [0, 5, 6, 0::int]\<rparr>)) \<and>
   dq_inv (snd (popTail \<lparr>headTail = pack 3 1, vals = [0, 5, 6, 0::int]\<rparr>))"
proof -
  have h: "dq_inv \<lparr>headTail = pack 3 1, vals = [0, 5, 6, 0::int]\<rparr>"
    by (simp add: dq_inv_def unpack_pack_eq)
  show ?thesis
    using h ring_index_invariant [of 0 "\<lparr>headTail = pack 3 1, vals = [0, 5, 6, 0::int]\<rparr>" 7]
    by blast
qed

subsection \<open>A full segment refuses the next value\<close>

lemma pushHead_True:
  assumes "pushHead v d = (Inr True, d')" "unpack (headTail d) = (h, t)"
  shows "unpack (headTail d') = (h + 1, t) \<and> length (vals d') = length (vals d)"
  using assms(1) unfolding pushHead_eq [OF assms(2)]
  by (auto simp add: unpack_pack_eq split: if_splits)

lemma pushHeads_True:
  assumes "pushHeads vs d = (rs, d')" "\<forall>r\<in>set rs. r = Inr True" "unpack (headTail d) = (h, t)"
  shows "unpack (headTail d') = (h + of_nat (length vs), t) \<and> length (vals d') = length (vals d)"
  using assms
proof (induction vs arbitrary: d rs h)
  case Nil
  then show ?case by simp
next
  case (Cons v vs)
  obtain r d1 where p: "pushHead v d = (r, d1)" by (cases "pushHead v d")
  obtain rs1 d2 where q: "pushHeads vs d1 = (rs1, d2)" by (cases "pushHeads vs d1")
  from Cons.prems(1) p q have e: "rs = r # rs1" "d' = d2" by auto
  with Cons.prems(2) have r: "r = Inr True" and rs1: "\<forall>r\<in>set rs1. r = Inr True" by auto
  from pushHead_True [OF p [unfolded r] Cons.prems(3)]
  have u1: "unpack (headTail d1) = (h + 1, t)" and l1: "length (vals d1) = length (vals d)" by auto
  from Cons.IH [OF q [folded e(2)] rs1 u1] l1 show ?case by (simp add: algebra_simps)
qed

lemma full_refuses:
  assumes "unpack (headTail d) = (t + of_nat (length (vals d)), t)"
  shows "pushHead v d = (Inr False, d)"
  by (simp add: pushHead_eq [OF assms] len32_def)

lemma fresh_unpack:
  "unpack (headTail (NewPoolDequeue n)) = (2 ^ dequeueBits - 500, 2 ^ dequeueBits - 500)"
  "unpack (headTail (newElt n)) = (0, 0)"
  "length (vals (NewPoolDequeue n)) = n" "length (vals (newElt n)) = n"
  by (simp_all add: NewPoolDequeue_def newElt_def unpack_pack_eq unpack_zero)

text \<open>C6: take a freshly constructed ring segment with \<open>N\<close> slots (from
  \<open>NewPoolDequeue\<close> or as a chain allocates it) and \<open>N\<close> calls of \<open>pushHead\<close>
  on it, with no pop in between, that all returned true.  Then one more \<open>pushHead\<close>,
  of any value, returns false and leaves the segment as it was: the same slots and the
  same head and tail.\<close>

theorem pushHead_full_after_capacity:
  assumes "d0 = NewPoolDequeue N \<or> d0 = newElt N"
    and "length vs = N"
    and "pushHeads vs d0 = (rs, d)"
    and "\<forall>r\<in>set rs. r = Inr True"
  shows "pushHead v d = (Inr False, d)"
proof -
  from assms(1) obtain t where u0: "unpack (headTail d0) = (t, t)" and l0: "length (vals d0) = N"
    by (auto simp add: fresh_unpack)
  from pushHeads_True [OF assms(3) assms(4) u0] assms(2) l0
  have "unpack (headTail d) = (t + of_nat (length (vals d)), t)" by simp
  then show ?thesis by (rule full_refuses)
qed

theorem pushHead_full_after_capacity_witness:
  "pushHeads [1, 2, 3, 4 :: int] (NewPoolDequeue 4) =
     ([Inr True, Inr True, Inr True, Inr True],
      \<lparr>headTail = pack (2 ^ 32 - 496) (2 ^ 32 - 500), vals = [1, 2, 3, 4]\<rparr>) \<and>
   pushHead 9 \<lparr>headTail = pack (2 ^ 32 - 496) (2 ^ 32 - 500), vals = [1, 2, 3, 4 :: int]\<rparr> =
     (Inr False, \<lparr>headTail = pack (2 ^ 32 - 496) (2 ^ 32 - 500), vals = [1, 2, 3, 4]\<rparr>)"
proof -
  have run: "pushHeads [1, 2, 3, 4 :: int] (NewPoolDequeue 4) =
     ([Inr True, Inr True, Inr True, Inr True],
      \<lparr>headTail = pack (2 ^ 32 - 496) (2 ^ 32 - 500), vals = [1, 2, 3, 4]\<rparr>)"
    by code_simp
  have "pushHead 9 \<lparr>headTail = pack (2 ^ 32 - 496) (2 ^ 32 - 500), vals = [1, 2, 3, 4 :: int]\<rparr> =
     (Inr False, \<lparr>headTail = pack (2 ^ 32 - 496) (2 ^ 32 - 500), vals = [1, 2, 3, 4]\<rparr>)"
    using pushHead_full_after_capacity [where N = 4 and v = 9, OF _ _ run] by simp
  with run show ?thesis by simp
qed

text \<open>Index arithmetic for a capacity that is a power of two: the pushes that fill a
  fresh segment do succeed.\<close>

lemma lenm1_pow2:
  assumes "length (vals d) = 2 ^ k"
  shows "lenm1_32 d = mask k"
  using assms by (simp add: lenm1_32_def mask_eq_exp_minus_1)

lemma idx_pow2:
  fixes h0 :: "32 word"
  assumes "length (vals d) = 2 ^ k" "k \<le> 32"
  shows "unat ((h0 + of_nat i) AND lenm1_32 d) = (unat h0 + i) mod 2 ^ k"
proof -
  have dv: "(2::nat) ^ k dvd 2 ^ 32" using assms(2) by (rule le_imp_power_dvd)
  have "unat ((h0 + of_nat i) AND lenm1_32 d) = unat (take_bit k (h0 + of_nat i))"
    by (simp add: lenm1_pow2 [OF assms(1)] take_bit_eq_mask)
  also have "\<dots> = take_bit k (unat (h0 + of_nat i))"
    by (rule unsigned_take_bit_eq)
  also have "\<dots> = unat (h0 + of_nat i) mod 2 ^ k"
    by (rule take_bit_eq_mod)
  also have "unat (h0 + of_nat i) = (unat h0 + i mod 2 ^ 32) mod 2 ^ 32"
    by (simp add: unat_word_ariths unat_of_nat)
  also have "\<dots> = (unat h0 + i) mod 2 ^ 32"
    by (simp add: mod_add_right_eq)
  also have "(unat h0 + i) mod 2 ^ 32 mod 2 ^ k = (unat h0 + i) mod 2 ^ k"
    using dv by (rule mod_mod_cancel)
  finally show ?thesis .
qed

lemma shifted_mod_distinct:
  fixes a :: nat
  assumes "j < i" "i < n"
  shows "(a + i) mod n \<noteq> (a + j) mod n"
proof
  assume "(a + i) mod n = (a + j) mod n"
  moreover have "a + j \<le> a + i" using assms(1) by simp
  ultimately have "n dvd (a + i) - (a + j)" by (simp add: mod_eq_dvd_iff_nat)
  then have "n dvd i - j" by simp
  moreover have "0 < i - j" "i - j < n" using assms by simp_all
  ultimately show False using nat_dvd_not_less by blast
qed


lemma pushHead_fills:
  assumes f: "filled h0 j d" and len: "length (vals d) = 2 ^ k" and k: "k < 32"
    and j: "j < 2 ^ k" and v: "v \<noteq> 0"
  shows "fst (pushHead v d) = Inr True \<and> filled h0 (Suc j) (snd (pushHead v d)) \<and>
         length (vals (snd (pushHead v d))) = 2 ^ k"
proof -
  let ?n = "length (vals d)"
  from f have u: "unpack (headTail d) = (h0 + of_nat j, h0)"
    and z: "\<And>i. j \<le> i \<Longrightarrow> i < ?n \<Longrightarrow> vals d ! ((unat h0 + i) mod ?n) = 0"
    by (auto simp add: filled_def)
  have lt32: "(2::nat) ^ k < 2 ^ 32" by (rule power_strict_increasing [OF k]) simp
  have idx: "\<And>i. unat ((h0 + of_nat i) AND lenm1_32 d) = (unat h0 + i) mod ?n"
    using idx_pow2 [OF len, of h0] k by (simp add: len)
  have notfull: "h0 + len32 d \<noteq> h0 + of_nat j"
  proof
    assume "h0 + len32 d = h0 + of_nat j"
    then have "(of_nat ?n :: 32 word) = of_nat j" by (simp add: len32_def)
    then have "unat (of_nat ?n :: 32 word) = unat (of_nat j :: 32 word)" by simp
    moreover have "?n < 2 ^ 32" "j < 2 ^ 32" using lt32 j len by simp_all
    ultimately have "?n = j" by (simp add: unat_of_nat)
    with j len show False by simp
  qed
  have inr: "(unat h0 + j) mod ?n < ?n" by (simp add: len)
  have zero: "vals d ! ((unat h0 + j) mod ?n) = 0" using z [of j] j len by simp
  have p: "pushHead v d =
      (Inr True, d\<lparr>vals := (vals d)[(unat h0 + j) mod ?n := v],
                    headTail := pack (h0 + of_nat j + 1) h0\<rparr>)"
    using notfull inr zero v by (simp add: pushHead_eq [OF u] idx)
  have "filled h0 (Suc j) (snd (pushHead v d))"
    unfolding p filled_def
  proof (intro conjI allI impI)
    show "unpack (headTail (snd (Inr True, d\<lparr>vals := (vals d)[(unat h0 + j) mod ?n := v],
                    headTail := pack (h0 + of_nat j + 1) h0\<rparr>))) = (h0 + of_nat (Suc j), h0)"
      by (simp add: unpack_pack_eq add.assoc)
  next
    fix i
    assume a: "Suc j \<le> i \<and> i < length (vals (snd (Inr True, d\<lparr>vals := (vals d)[(unat h0 + j) mod ?n := v],
                    headTail := pack (h0 + of_nat j + 1) h0\<rparr>)))"
    then have ji: "j < i" and il: "i < ?n" by simp_all
    from shifted_mod_distinct [OF ji il, of "unat h0"]
    have ne: "(unat h0 + i) mod ?n \<noteq> (unat h0 + j) mod ?n" .
    from z [of i] ji il have "vals d ! ((unat h0 + i) mod ?n) = 0" by simp
    with ne show "vals (snd (Inr True, d\<lparr>vals := (vals d)[(unat h0 + j) mod ?n := v],
                    headTail := pack (h0 + of_nat j + 1) h0\<rparr>)) !
          ((unat h0 + i) mod length (vals (snd (Inr True, d\<lparr>vals := (vals d)[(unat h0 + j) mod ?n := v],
                    headTail := pack (h0 + of_nat j + 1) h0\<rparr>)))) = 0"
      by simp
  qed
  then show ?thesis using p len by simp
qed

lemma pushHeads_fill:
  assumes "filled h0 j d" "length (vals d) = 2 ^ k" "k < 32"
    "j + length vs \<le> 2 ^ k" "\<forall>v\<in>set vs. v \<noteq> 0"
  shows "fst (pushHeads vs d) = replicate (length vs) (Inr True)"
  using assms
proof (induction vs arbitrary: j d)
  case Nil
  then show ?case by simp
next
  case (Cons v vs)
  from Cons.prems have j: "j < 2 ^ k" and v: "v \<noteq> 0" by simp_all
  from pushHead_fills [OF Cons.prems(1) Cons.prems(2) Cons.prems(3) j v]
  have r: "fst (pushHead v d) = Inr True"
    and f1: "filled h0 (Suc j) (snd (pushHead v d))"
    and l1: "length (vals (snd (pushHead v d))) = 2 ^ k" by simp_all
  have "fst (pushHeads vs (snd (pushHead v d))) = replicate (length vs) (Inr True)"
    using f1 l1 Cons.prems(3) by (rule Cons.IH) (use Cons.prems in simp_all)
  with r show ?case by (simp add: split_beta)
qed

lemma fresh_filled:
  "filled (2 ^ dequeueBits - 500) 0 (NewPoolDequeue n)" "filled 0 0 (newElt n)"
  by (simp_all add: filled_def NewPoolDequeue_def newElt_def unpack_pack_eq unpack_zero)

text \<open>On a fresh segment whose capacity is a power of two below \<open>2^32\<close>, as every
  segment of a chain is, pushes of non-zero values do succeed until the segment holds as
  many values as it has slots.\<close>

lemma pushHeads_fresh_succeed:
  assumes "d0 = NewPoolDequeue (2 ^ k) \<or> d0 = newElt (2 ^ k)" "k < 32"
    "length vs \<le> 2 ^ k" "\<forall>v\<in>set vs. v \<noteq> 0"
  shows "fst (pushHeads vs d0) = replicate (length vs) (Inr True)"
proof -
  have "\<exists>h0. filled h0 0 d0"
    using assms(1) fresh_filled by blast
  then obtain h0 where f: "filled h0 0 d0" ..
  have l: "length (vals d0) = 2 ^ k"
    using assms(1) by (auto simp add: fresh_unpack)
  from f l assms(2) show ?thesis
    by (rule pushHeads_fill) (use assms in simp_all)
qed

subsection \<open>Growth of a chain\<close>

lemma pushHead_length: "length (vals (snd (pushHead v d))) = length (vals d)"
proof -
  obtain h t where u: "unpack (headTail d) = (h, t)" by (cases "unpack (headTail d)")
  show ?thesis by (simp add: pushHead_eq [OF u])
qed

lemma pushHead_fresh8: "fst (pushHead v (newElt 8)) \<noteq> Inr False"
  by (simp add: pushHead_def newElt_def unpack_zero Let_def len32_def lenm1_32_def slot_at_def
      deref_dequeueNil_def dequeueBits_def)

lemma caps_chain_pushHead:
  "caps (snd (chain_pushHead v c)) =
     (if c = [] then [8] else if grows v c then caps c @ [growSize (last (caps c))] else caps c)"
proof (cases c)
  case Nil
  obtain r d' where p: "pushHead v (newElt 8) = (r, d')" by (cases "pushHead v (newElt 8)")
  from pushHead_length [of v "newElt 8"] p have l: "length (vals d') = 8" by (simp add: newElt_def)
  from pushHead_fresh8 [of v] p have "r \<noteq> Inr False" by simp
  with Nil p l show ?thesis
    by (auto simp add: chain_pushHead_def caps_def split: sum.splits bool.splits)
next
  case (Cons d older)
  obtain r d' where p: "pushHead v d = (r, d')" by (cases "pushHead v d")
  from pushHead_length [of v d] p have l: "length (vals d') = length (vals d)" by simp
  obtain r2 d2 where p2: "pushHead v (newElt (growSize (length (vals d)))) = (r2, d2)"
    by (cases "pushHead v (newElt (growSize (length (vals d))))")
  from pushHead_length [of v "newElt (growSize (length (vals d)))"] p2
  have l2: "length (vals d2) = growSize (length (vals d))" by (simp add: newElt_def)
  from Cons p l p2 l2 show ?thesis
    by (auto simp add: chain_pushHead_def caps_def grows_def split: sum.splits bool.splits)
qed

lemma dequeueLimit_eq: "dequeueLimit = 2 ^ 30"
  by (simp add: dequeueLimit_def dequeueBits_def)

lemma growSize_capOf: "growSize (capOf i) = capOf (Suc i)"
  by (simp add: growSize_def capOf_def dequeueLimit_eq min_def Let_def)

lemma chain_nonempty: "snd (chain_pushHead v c) \<noteq> []"
  by (auto simp add: chain_pushHead_def Let_def split: list.splits prod.splits sum.splits bool.splits)

lemma caps_run:
  assumes "c \<noteq> []" "caps c = map capOf [0..<n]" "n > 0"
  shows "caps (snd (chain_pushHeads vs c)) = map capOf [0..<n + growth_events vs c]"
  using assms
proof (induction vs arbitrary: c n)
  case Nil
  then show ?case by simp
next
  case (Cons v vs)
  let ?c1 = "snd (chain_pushHead v c)"
  let ?n1 = "n + (if grows v c then 1 else 0)"
  have last: "last (caps c) = capOf (n - 1)"
    using Cons.prems by (simp add: last_map)
  have c1: "caps ?c1 = map capOf [0..<?n1]"
    using Cons.prems last by (simp add: caps_chain_pushHead growSize_capOf)
  have "caps (snd (chain_pushHeads vs ?c1)) = map capOf [0..<?n1 + growth_events vs ?c1]"
    using chain_nonempty c1 by (rule Cons.IH) (use Cons.prems in simp)
  then show ?case
    by (simp add: split_beta add.assoc)
qed

lemma index_in_range:
  assumes "0 < length (vals d)"
  shows "unat (h AND lenm1_32 d) < length (vals d)"
proof -
  let ?n = "length (vals d)"
  have e: "lenm1_32 d = of_nat (?n - 1)"
  proof -
    from assms obtain m where m: "?n = Suc m" by (cases "?n") auto
    then have "int ?n - 1 = int m" by simp
    then have "lenm1_32 d = word_of_int (int m)" by (simp add: lenm1_32_def)
    then show ?thesis using m by simp
  qed
  have "h AND lenm1_32 d \<le> lenm1_32 d" by (rule word_and_le1)
  then have "unat (h AND lenm1_32 d) \<le> unat (of_nat (?n - 1) :: 32 word)"
    unfolding e by (simp add: word_le_nat_alt)
  also have "\<dots> \<le> ?n - 1" by (simp add: unat_of_nat)
  finally have "unat (h AND lenm1_32 d) \<le> ?n - 1" .
  with assms show ?thesis by linarith
qed

lemma pushHead_no_panic:
  assumes "v \<noteq> 0" "0 < length (vals d)"
  shows "fst (pushHead v d) = Inr True \<or> fst (pushHead v d) = Inr False"
proof -
  obtain h t where u: "unpack (headTail d) = (h, t)" by (cases "unpack (headTail d)")
  show ?thesis using assms by (simp add: pushHead_eq [OF u] index_in_range)
qed

lemma growSize_pos: "0 < n \<Longrightarrow> 0 < growSize n"
  by (simp add: growSize_def dequeueLimit_eq Let_def)

lemma chain_pushHead_no_panic:
  assumes "v \<noteq> 0" "\<forall>d\<in>set c. 0 < length (vals d)"
  shows "fst (chain_pushHead v c) = Inr ()"
proof (cases c)
  case Nil
  from pushHead_no_panic [OF assms(1), of "newElt 8"]
  have "fst (pushHead v (newElt 8)) = Inr True \<or> fst (pushHead v (newElt 8)) = Inr False"
    by (simp add: newElt_def)
  with pushHead_fresh8 [of v] have "fst (pushHead v (newElt 8)) = Inr True" by simp
  with Nil show ?thesis
    by (cases "pushHead v (newElt 8)") (simp add: chain_pushHead_def)
next
  case (Cons d older)
  with assms(2) have pos: "0 < length (vals d)" by simp
  obtain r d' where p: "pushHead v d = (r, d')" by (cases "pushHead v d")
  from pushHead_no_panic [OF assms(1) pos] p have r: "r = Inr True \<or> r = Inr False" by simp
  from pushHead_length [of v d] p have l: "length (vals d') = length (vals d)" by simp
  let ?d2 = "newElt (growSize (length (vals d))) :: 'a poolDequeue"
  have "0 < length (vals ?d2)" using pos by (simp add: newElt_def growSize_pos)
  from pushHead_no_panic [OF assms(1) this]
  have r2: "fst (pushHead v ?d2) = Inr True \<or> fst (pushHead v ?d2) = Inr False" .
  from Cons p r l r2 show ?thesis
    by (cases "pushHead v ?d2")
       (auto simp add: chain_pushHead_def split: sum.splits bool.splits)
qed

lemma capOf_pos: "0 < capOf i"
  by (simp add: capOf_def dequeueLimit_eq)

lemma caps_pos_iff: "(\<forall>d\<in>set c. 0 < length (vals d)) \<longleftrightarrow> (\<forall>n\<in>set (caps c). 0 < n)"
  by (auto simp add: caps_def)

lemma chain_pushHeads_no_panic:
  assumes "\<forall>v\<in>set vs. v \<noteq> 0" "c = [] \<or> caps c = map capOf [0..<n]"
  shows "fst (chain_pushHeads vs c) = replicate (length vs) (Inr ())"
  using assms
proof (induction vs arbitrary: c n)
  case Nil
  then show ?case by simp
next
  case (Cons v vs)
  let ?c1 = "snd (chain_pushHead v c)"
  have pos: "\<forall>d\<in>set c. 0 < length (vals d)"
  proof (cases "c = []")
    case True
    then show ?thesis by simp
  next
    case False
    with Cons.prems(2) have "caps c = map capOf [0..<n]" by simp
    then have "\<forall>m\<in>set (caps c). 0 < m" by (auto simp add: capOf_pos)
    then show ?thesis by (simp only: caps_pos_iff)
  qed
  from Cons.prems(1) have v: "v \<noteq> 0" and vs: "\<forall>v\<in>set vs. v \<noteq> 0" by simp_all
  from chain_pushHead_no_panic [OF v pos] have r: "fst (chain_pushHead v c) = Inr ()" .
  have "\<exists>m. caps ?c1 = map capOf [0..<m]"
  proof (cases "c = []")
    case True
    then have "caps ?c1 = map capOf [0..<1]"
      by (simp add: caps_chain_pushHead capOf_def dequeueLimit_eq)
    then show ?thesis ..
  next
    case False
    with Cons.prems(2) have c: "caps c = map capOf [0..<n]" by simp
    have "length (caps c) = length c" by (simp add: caps_def)
    with c have "length c = n" by simp
    with False have n: "0 < n" by (cases c) auto
    then have "last (caps c) = capOf (n - 1)" using c by (simp add: last_map)
    with False c n have "caps ?c1 = map capOf [0..<n + (if grows v c then 1 else 0)]"
      by (simp add: caps_chain_pushHead growSize_capOf)
    then show ?thesis ..
  qed
  then obtain m where "caps ?c1 = map capOf [0..<m]" ..
  then have "?c1 = [] \<or> caps ?c1 = map capOf [0..<m]" ..
  with vs have "fst (chain_pushHeads vs ?c1) = replicate (length vs) (Inr ())"
    by (rule Cons.IH)
  with r show ?case by (simp add: split_beta)
qed

lemma caps_run_empty:
  assumes "vs \<noteq> []"
  shows "caps (snd (chain_pushHeads vs [])) = map capOf [0..<Suc (growth_events vs [])]"
proof -
  from assms obtain v vs' where e: "vs = v # vs'" by (cases vs) auto
  let ?c1 = "snd (chain_pushHead v [])"
  have c1: "caps ?c1 = map capOf [0..<1]"
    by (simp add: caps_chain_pushHead capOf_def dequeueLimit_eq)
  have "caps (snd (chain_pushHeads vs' ?c1)) = map capOf [0..<1 + growth_events vs' ?c1]"
    using chain_nonempty c1 by (rule caps_run) simp
  then show ?thesis by (simp add: e split_beta grows_def)
qed

text \<open>C8: start from a chain without segments and push any non-empty sequence of
  non-zero values, as \<open>Put\<close> does.  No call panics, and if \<open>k\<close> of the calls were
  growth events (the head segment refused the value), the chain then has \<open>k + 1\<close>
  segments whose capacities, from the oldest to the newest, are 8, 16, 32, ...: segment
  \<open>i\<close> has \<open>8 * 2^i\<close> slots while that stays below \<open>dequeueLimit = 2^30\<close>, and
  \<open>dequeueLimit\<close> slots from then on.\<close>

theorem chain_growth_doubling:
  assumes "vs \<noteq> []" and "\<forall>v\<in>set vs. v \<noteq> 0"
  shows "fst (chain_pushHeads vs []) = replicate (length vs) (Inr ()) \<and>
         caps (snd (chain_pushHeads vs [])) =
           map (\<lambda>i. min (8 * 2 ^ i) dequeueLimit) [0..<Suc (growth_events vs [])] \<and>
         dequeueLimit = 2 ^ 30"
proof -
  have "fst (chain_pushHeads vs []) = replicate (length vs) (Inr ())"
    using assms(2) by (rule chain_pushHeads_no_panic) simp
  moreover have "caps (snd (chain_pushHeads vs [])) =
      map (\<lambda>i. min (8 * 2 ^ i) dequeueLimit) [0..<Suc (growth_events vs [])]"
    using caps_run_empty [OF assms(1)] by (simp add: capOf_def [abs_def])
  ultimately show ?thesis by (simp add: dequeueLimit_eq)
qed



lemma growth_events_append:
  "growth_events (xs @ ys) c = growth_events xs c + growth_events ys (snd (chain_pushHeads xs c))"
  by (induction xs arbitrary: c) (simp_all add: split_beta)

theorem chain_growth_doubling_witness:
  "growth_events [1, 2, 3, 4, 5, 6, 7, 8, 9 :: int] [] = 1 \<and>
   fst (chain_pushHeads [1, 2, 3, 4, 5, 6, 7, 8, 9 :: int] []) = replicate 9 (Inr ()) \<and>
   caps (snd (chain_pushHeads [1, 2, 3, 4, 5, 6, 7, 8, 9 :: int] [])) = [8, 16]"
proof -
  let ?vs = "[1, 2, 3, 4, 5, 6, 7, 8, 9 :: int]"
  let ?d8 = "\<lparr>headTail = pack 8 0, vals = [1, 2, 3, 4, 5, 6, 7, 8 :: int]\<rparr>"
  have s8: "snd (chain_pushHeads [1, 2, 3, 4, 5, 6, 7, 8 :: int] []) = [?d8]"
    by code_simp
  have g8: "growth_events [1, 2, 3, 4, 5, 6, 7, 8 :: int] [] = 0"
    by code_simp
  have full: "fst (pushHead 9 ?d8) = Inr False"
    by code_simp
  have split: "?vs = [1, 2, 3, 4, 5, 6, 7, 8] @ [9]"
    by simp
  have g: "growth_events ?vs [] = 1"
    unfolding split growth_events_append g8 s8 using full by (simp add: grows_def)
  have ne: "?vs \<noteq> []"
    by simp
  have nz: "\<forall>v\<in>set ?vs. v \<noteq> 0"
    by simp
  have m: "map (\<lambda>i. min (8 * 2 ^ i) dequeueLimit) [0..<Suc 1] = [8, 16]"
    by (simp add: dequeueLimit_eq upt_conv_Cons)
  have l: "length ?vs = 9"
    by simp
  from chain_growth_doubling [OF ne nz]
  have "fst (chain_pushHeads ?vs []) = replicate 9 (Inr ())"
    and "caps (snd (chain_pushHeads ?vs [])) = [8, 16]"
    unfolding g m l by blast+
  with g show ?thesis by blast
qed

subsection \<open>The decay step\<close>

lemma pools_upd_pool: "pools (upd_pool a f w) x = (if x = a then f (pools w a) else pools w x)"
  by (simp add: upd_pool_def)














subsection \<open>Where the code leaves the documented behaviour\<close>

text \<open>\<open>popHead\<close> on an empty segment, and \<open>popTail\<close> on a segment that is not
  empty, by the case analysis above.\<close>

lemma popHead_empty_panics:
  "unpack (headTail d) = (h, h) \<Longrightarrow> popHead d = (Inl NilPointerDereference, d)"
  by (simp add: popHead_eq)

lemma popTail_nonempty_panics:
  assumes "unpack (headTail d) = (h, t)" "t \<noteq> h"
  shows "(\<exists>e. fst (popTail d) = Inl e) \<and> vals (snd (popTail d)) = vals d"
  using assms(2) by (simp add: popTail_eq [OF assms(1)])

text \<open>C3: \<open>popHead\<close> on an empty ring segment (head index equal to tail index),
  here the freshly allocated segment of 8 slots.  The code returns \<open>*zero\<close> for a
  \<open>zero\<close> that is a nil \<open>*T\<close>: the call panics with a nil pointer dereference
  instead of returning the zero value and false.\<close>

theorem popHead_empty_aborts:
  "popHead (newElt 8 :: int poolDequeue) = (Inl NilPointerDereference, newElt 8)"
  by code_simp

text \<open>C2: \<open>popTail\<close> on a segment holding one value (5 in slot 0, head 1, tail 0).
  The compare-and-swap advances the tail to 1, then the code sets its slot pointer to
  nil and calls \<open>Store\<close> through it: the call panics, returns no value, and slot 0
  still holds 5.\<close>

theorem popTail_nonempty_aborts:
  "popTail \<lparr>headTail = pack 1 0, vals = [5, 0, 0, 0, 0, 0, 0, 0 :: int]\<rparr> =
     (Inl NilPointerDereference, \<lparr>headTail = pack 1 1, vals = [5, 0, 0, 0, 0, 0, 0, 0]\<rparr>)"
  by code_simp

text \<open>In \<open>Put\<close> the test before the store into the private slot is \<open>isNil(x)\<close>, which
  the early return has already excluded: with the race detector off, no private slot
  differs after \<open>Put\<close> from what \<open>pin\<close> handed over.\<close>

lemma private_storeLocal_shared:
  "indexLocal g pid = Inr l \<Longrightarrow>
   map_option (map private') (storeLocal g pid (l\<lparr>shared := c\<rparr>)) = map_option (map private') g"
  by (cases g) (auto simp add: indexLocal_def storeLocal_def map_update list_update_same_conv split: if_splits)

lemma Put_never_private:
  assumes "x \<noteq> 0" "\<not> raceEnabled env" "pin env ptr w = (Inr (a, pid), w1)"
  shows "map_option (map private') (local (pools (snd (Put env ptr x w)) a))
           = map_option (map private') (local (pools w1 a))"
  using assms
  by (auto simp add: Put_def isNil_def pools_upd_pool private_storeLocal_shared
           split: sum.splits prod.splits)

text \<open>C1: \<open>Put(7)\<close> by worker 0 on a pool that was never used, so that the worker's
  private slot is empty.  The call succeeds, the private slot is still empty, and 7 is
  in slot 0 of a new 8-slot segment at the head of the worker's chain.\<close>

theorem Put_bypasses_private_slot:
  "fst (Put worker0 (Some 0) (7::int) (freshWorld None)) = Inr () \<and>
   local (pools (snd (Put worker0 (Some 0) (7::int) (freshWorld None))) 0) =
     Some [\<lparr>private' = 0,
            shared = [\<lparr>headTail = pack 1 0, vals = [7, 0, 0, 0, 0, 0, 0, 0]\<rparr>]\<rparr>]"
  by code_simp

text \<open>The scan of the victim chains ends on \<open>&x != nil\<close>, which is true of every
  \<open>x\<close>, so it returns in its first round and the store of 0 into \<open>victimSize\<close>
  behind it is never reached: \<open>getSlow\<close> leaves \<open>victimSize\<close> as it found it.\<close>

lemma scanTails_stops:
  "js \<noteq> [] \<Longrightarrow> fst (scanTails addr_of_ne_nil js g) \<noteq> Inr None"
  by (cases js) (auto simp add: addr_of_ne_nil_def Let_def split: sum.splits prod.splits)

lemma getSlow_victim_keeps_size:
  "victimSize (pools (snd (getSlow_victim a pid w)) a) = victimSize (pools w a)"
proof (cases "pid \<ge> victimSize (pools w a)")
  case True
  then show ?thesis by (simp add: getSlow_victim_def)
next
  case False
  let ?size = "victimSize (pools w a)"
  let ?js = "map (\<lambda>i. (pid + i) mod ?size) [0..<?size]"
  from False have "?js \<noteq> []" by simp
  then have "fst (scanTails addr_of_ne_nil ?js (victim (pools w a))) \<noteq> Inr None"
    by (rule scanTails_stops)
  with False show ?thesis
    by (cases "scanTails addr_of_ne_nil ?js (victim (pools w a))")
       (auto simp add: getSlow_victim_def Let_def pools_upd_pool
             split: sum.splits option.splits)
qed

lemma getSlow_keeps_victimSize:
  "victimSize (pools (snd (getSlow a pid w)) a) = victimSize (pools w a)"
  by (auto simp add: getSlow_def Let_def getSlow_victim_keeps_size pools_upd_pool
           split: prod.splits sum.splits option.splits)

text \<open>C4: \<open>getSlow\<close> for worker 0 on a pool whose current generation has one empty
  chain and whose victim generation has one slot with an empty private slot and an empty
  chain.  It returns the zero value, and the victim size is still 1.\<close>

theorem getSlow_keeps_exhausted_victim:
  "fst (getSlow 0 0 victimWorld) = Inr 0 \<and>
   victimSize (pools (snd (getSlow 0 0 victimWorld)) 0) = 1"
  by code_simp

text \<open>C5: one worker, a pool never used before, a factory returning 0.  After
  \<open>Put\<close> of 1, 2 and 3 the first three \<open>Get\<close> calls return 3, 2 and 1.  The fourth
  finds the private slot empty and calls \<open>popHead\<close> on the now empty head segment,
  which panics: the call aborts instead of returning the factory's 0.\<close>

theorem round_trip_fourth_Get_aborts:
  "map fst [get1, get2, get3, get4] = [Inr 3, Inr 2, Inr 1, Inl NilPointerDereference]"
  by code_simp

text \<open>What \<open>pinSlow\<close> registers is the address of its receiver variable, so a decay step
  after the first \<open>Put\<close> works on that address and leaves the pool itself as it was:
  the value is still in the current generation and the next \<open>Get\<close> returns it.\<close>

lemma decay_misses_registered_pool:
  "allPools (snd (Put worker0 (Some 0) (7::int) (freshWorld None))) = [1] \<and>
   pools (poolCleanup (snd (Put worker0 (Some 0) (7::int) (freshWorld None)))) 0 =
     pools (snd (Put worker0 (Some 0) (7::int) (freshWorld None))) 0 \<and>
   fst (Get worker0 (Some 0) (poolCleanup (snd (Put worker0 (Some 0) (7::int) (freshWorld None)))))
     = Inr 7"
  by code_simp

end
